theory Spec2Isabelle
  imports Main "HOL-Library.Sublist" "HOL-Library.List_Lexorder" "HOL-Library.AList"
begin

section \<open>Python strings\<close>

text \<open>
  The script \<^verbatim>\<open>notion_clean_all.py\<close> works on Python \<^verbatim>\<open>str\<close> values, which are
  sequences of Unicode code points.  A code point is a natural number here and a string is
  a list of them, so that \<^verbatim>\<open>str.split()\<close> and \<^verbatim>\<open>str.strip()\<close> see every
  Unicode white space character as one element.  ASCII literals of the source are written
  with \<open>lit\<close>.
\<close>

type_synonym cp = nat
type_synonym str = "cp list"

abbreviation lit :: "string \<Rightarrow> str" where
  "lit s \<equiv> map of_char s"

text \<open>
  \<^verbatim>\<open>str.isspace\<close> for one code point, the table of CPython's
  \<^verbatim>\<open>_PyUnicode_IsWhitespace\<close>: U+0009..U+000D, U+001C..U+0020, U+0085, U+00A0,
  U+1680, U+2000..U+200A, U+2028, U+2029, U+202F, U+205F, U+3000.
\<close>

definition isspace :: "cp \<Rightarrow> bool" where
  "isspace c \<longleftrightarrow>
     (9 \<le> c \<and> c \<le> 13) \<or> (28 \<le> c \<and> c \<le> 32) \<or> c = 133 \<or> c = 160 \<or> c = 5760 \<or>
     (8192 \<le> c \<and> c \<le> 8202) \<or> c = 8232 \<or> c = 8233 \<or> c = 8239 \<or> c = 8287 \<or>
     c = 12288"

text \<open>
  \<^verbatim>\<open>name.split()\<close> without arguments: skip white space, take the run of other
  characters as a token, repeat.  Leading and trailing white space gives no empty token.
\<close>

function split_ws :: "str \<Rightarrow> str list" where
  "split_ws s =
     (case dropWhile isspace s of
        [] \<Rightarrow> []
      | c # cs \<Rightarrow>
          takeWhile (\<lambda>x. \<not> isspace x) (c # cs) #
          split_ws (dropWhile (\<lambda>x. \<not> isspace x) (c # cs)))"
  by pat_completeness auto
termination
proof (relation "measure length")
  show "wf (measure length)" by simp
next
  fix s :: str and c cs
  assume d: "dropWhile isspace s = c # cs"
  have "\<not> isspace c"
    using d hd_dropWhile [of isspace s] by auto
  then have "dropWhile (\<lambda>x. \<not> isspace x) (c # cs) = dropWhile (\<lambda>x. \<not> isspace x) cs"
    by simp
  moreover have "length (dropWhile (\<lambda>x. \<not> isspace x) cs) \<le> length cs"
    by (rule length_dropWhile_le)
  moreover have "length (c # cs) \<le> length s"
    using d length_dropWhile_le [of isspace s] by simp
  ultimately show "(dropWhile (\<lambda>x. \<not> isspace x) (c # cs), s) \<in> measure length"
    by simp
qed

declare split_ws.simps [simp del]

text \<open>\<^verbatim>\<open>sep.join(parts)\<close>.\<close>

fun join :: "str \<Rightarrow> str list \<Rightarrow> str" where
  "join sep [] = []"
| "join sep [x] = x"
| "join sep (x # y # ys) = x @ sep @ join sep (y # ys)"

text \<open>\<^verbatim>\<open>s.rstrip(chars)\<close>, \<^verbatim>\<open>s.strip()\<close> and \<^verbatim>\<open>s.replace(old, new)\<close>
  (all occurrences, left to right, not overlapping; an empty \<open>old\<close> matches before every
  character and at the end).\<close>

definition rstrip_chars :: "str \<Rightarrow> str \<Rightarrow> str" where
  "rstrip_chars chars s = rev (dropWhile (\<lambda>c. c \<in> set chars) (rev s))"

definition strip :: "str \<Rightarrow> str" where
  "strip s = rev (dropWhile isspace (rev (dropWhile isspace s)))"

function replace :: "str \<Rightarrow> str \<Rightarrow> str \<Rightarrow> str" where
  "replace old new [] = (if old = [] then new else [])"
| "replace old new (c # cs) =
     (if old = [] then new @ c # replace old new cs
      else if prefix old (c # cs) then new @ replace old new (drop (length old) (c # cs))
      else c # replace old new cs)"
  by pat_completeness auto
termination
  by (relation "measure (\<lambda>(old, new, s). length s)") auto

section \<open>The pattern HEX32\<close>

text \<open>
  \<^verbatim>\<open>HEX32 = re.compile(r"[0-9a-f]{32}$", re.I)\<close>.  With \<^verbatim>\<open>re.I\<close> the class
  matches the digits and the letters a to f in both cases.  \<^verbatim>\<open>fullmatch\<close> wants the
  whole string to be the 32 characters; \<^verbatim>\<open>search\<close> accepts any start, but the
  \<^verbatim>\<open>$\<close> wants the 32 characters to end at the end of the string or just before a
  line feed that is its last character.
\<close>

definition is_hex :: "cp \<Rightarrow> bool" where
  "is_hex c \<longleftrightarrow> (48 \<le> c \<and> c \<le> 57) \<or> (97 \<le> c \<and> c \<le> 102) \<or> (65 \<le> c \<and> c \<le> 70)"

definition HEX32_fullmatch :: "str \<Rightarrow> bool" where
  "HEX32_fullmatch s \<longleftrightarrow> length s = 32 \<and> list_all is_hex s"

definition ends_hex32 :: "str \<Rightarrow> bool" where
  "ends_hex32 s \<longleftrightarrow> 32 \<le> length s \<and> list_all is_hex (drop (length s - 32) s)"

definition HEX32_search :: "str \<Rightarrow> bool" where
  "HEX32_search s \<longleftrightarrow>
     ends_hex32 s \<or> (s \<noteq> [] \<and> last s = 10 \<and> ends_hex32 (butlast s))"

section \<open>Name normalizer\<close>

definition strip_hash :: "str \<Rightarrow> str" where
  "strip_hash name =
     (let parts = split_ws name in
      if parts \<noteq> [] \<and> HEX32_fullmatch (last parts)
      then rstrip_chars (lit '' |_'') (join (lit '' '') (butlast parts))
      else name)"

definition remove_brackets :: "str \<Rightarrow> str" where
  "remove_brackets s = strip (replace (lit '']'') [] (replace (lit ''['') [] s))"

section \<open>Folder matcher\<close>






section \<open>Orchestrator\<close>

text \<open>
  \<^verbatim>\<open>main\<close> lists the working directory, sorts the paths (paths of one directory
  compare by name, code point by code point), keeps the directories whose name
  \<^verbatim>\<open>HEX32.search\<close> accepts and numbers them from 1.  A directory entry is its name and
  whether \<^verbatim>\<open>is_dir()\<close> holds.
\<close>

type_synonym dirent = "str \<times> bool"

definition folders :: "dirent list \<Rightarrow> dirent list" where
  "folders listing = filter (\<lambda>p. snd p \<and> HEX32_search (fst p)) (sort_key fst listing)"

definition schedule :: "dirent list \<Rightarrow> (nat \<times> dirent) list" where
  "schedule listing = enumerate 1 (folders listing)"

section \<open>Link rewriter\<close>

text \<open>
  What the script can raise in the parts modelled here: \<^verbatim>\<open>read_text\<close> on a missing
  document, \<^verbatim>\<open>quote\<close> on a string that UTF-8 cannot encode, \<^verbatim>\<open>rmdir\<close> on a
  directory that is not empty, \<^verbatim>\<open>mkdir\<close> over an existing file.
\<close>

datatype exn = FileNotFoundError | UnicodeEncodeError | DirectoryNotEmpty | FileExistsError

subsection \<open>\<^verbatim>\<open>urllib.parse.unquote\<close>\<close>









subsection \<open>\<^verbatim>\<open>urllib.parse.quote\<close>\<close>







subsection \<open>\<^verbatim>\<open>Path(...).parts\<close>\<close>



subsection \<open>\<^verbatim>\<open>rewrite_path\<close>\<close>



subsection \<open>The two link patterns\<close>









subsection \<open>\<^verbatim>\<open>replace_links\<close>\<close>










section \<open>Folder renamer\<close>

text \<open>
  A directory is the list of its entries, each a name with a file (its content) or a
  directory, in the order in which \<^verbatim>\<open>iterdir()\<close> yields them.  The model is for a source
  and a destination that are different places, neither inside the other, so the guard
  \<^verbatim>\<open>src.resolve() == dst.resolve()\<close> is false; the destination is a directory or absent.

  \<open>rename_merge\<close> is \<^verbatim>\<open>rename_folder\<close> on a destination that exists: the loop, then
  \<^verbatim>\<open>src.rmdir()\<close>, which raises when something is left in the source.  \<open>merge_loop\<close> is
  the loop over the entries; it returns what stays in the source, the destination and the
  exception that ended the loop, if any.  A file moves only when the destination has no
  entry of its name.  For a directory \<^verbatim>\<open>t.mkdir(exist_ok=True)\<close> raises when the
  destination has a file of that name, and creates the directory when it has no entry;
  then \<^verbatim>\<open>rename_folder\<close> is called on the pair.  \<open>Done d\<close> is a return with the source
  removed and the destination \<open>d\<close>; \<open>Raised e s d\<close> is the exception \<open>e\<close> with \<open>s\<close>
  left in the source and \<open>d\<close> in the destination.
\<close>

datatype node = File str | Dir "(str \<times> node) list"

datatype outcome =
  Done "(str \<times> node) list"
| Raised exn "(str \<times> node) list" "(str \<times> node) list"

fun rename_merge :: "(str \<times> node) list \<Rightarrow> (str \<times> node) list \<Rightarrow> outcome"
  and merge_loop :: "(str \<times> node) list \<Rightarrow> (str \<times> node) list \<Rightarrow>
    (str \<times> node) list \<times> (str \<times> node) list \<times> exn option" where
  "rename_merge src dst =
     (case merge_loop src dst of
        (left, dst', Some e) \<Rightarrow> Raised e left dst'
      | (left, dst', None) \<Rightarrow>
          if left = [] then Done dst' else Raised DirectoryNotEmpty left dst')"
| "merge_loop [] dst = ([], dst, None)"
| "merge_loop ((name, File c) # ps) dst =
     (if map_of dst name = None
      then merge_loop ps (AList.update name (File c) dst)
      else (case merge_loop ps dst of (left, dst', e) \<Rightarrow> ((name, File c) # left, dst', e)))"
| "merge_loop ((name, Dir cs) # ps) dst =
     (case map_of dst name of
        Some (File c) \<Rightarrow> ((name, Dir cs) # ps, dst, Some FileExistsError)
      | t \<Rightarrow>
          (case rename_merge cs (case t of Some (Dir ds) \<Rightarrow> ds | _ \<Rightarrow> []) of
             Raised e left ds' \<Rightarrow>
               ((name, Dir left) # ps, AList.update name (Dir ds') dst, Some e)
           | Done ds' \<Rightarrow> merge_loop ps (AList.update name (Dir ds') dst)))"

definition rename_folder :: "(str \<times> node) list \<Rightarrow> (str \<times> node) list option \<Rightarrow> outcome" where
  "rename_folder src dst =
     (case dst of
        None \<Rightarrow> Done src
      | Some d \<Rightarrow> rename_merge src d)"

text \<open>
  \<open>lookup\<close> follows a relative path, given as its list of names, from a directory;
  \<open>dst_after\<close> is the destination as an outcome leaves it.
\<close>

fun lookup :: "(str \<times> node) list \<Rightarrow> str list \<Rightarrow> node option" where
  "lookup es [] = None"
| "lookup es [n] = map_of es n"
| "lookup es (n # m # path) =
     (case map_of es n of
        Some (Dir ds) \<Rightarrow> lookup ds (m # path)
      | _ \<Rightarrow> None)"

fun dst_after :: "outcome \<Rightarrow> (str \<times> node) list" where
  "dst_after (Done d) = d"
| "dst_after (Raised e s d) = d"

section \<open>Predicates for the claims\<close>

text \<open>
  Three predicates used to state the claims: a list of tokens as \<^verbatim>\<open>split()\<close> returns
  them (none empty, none with white space), a name whose last token is a 32-character
  hexadecimal token (the test of \<open>strip_hash\<close>), and a source directory that meets no
  collision in a destination: the names of a listing are distinct, no file of the source has
  its name taken in the destination, and a sub-directory of the source meets at its name
  nothing or a directory, in which it meets no collision either.
\<close>

fun collision_free :: "(str \<times> node) list \<Rightarrow> (str \<times> node) list \<Rightarrow> bool" where
  "collision_free [] dst = True"
| "collision_free ((name, File c) # ps) dst =
     (map_of dst name = None \<and> map_of ps name = None \<and> collision_free ps dst)"
| "collision_free ((name, Dir cs) # ps) dst =
     ((case map_of dst name of
         None \<Rightarrow> collision_free cs []
       | Some (Dir ds) \<Rightarrow> collision_free cs ds
       | Some (File c) \<Rightarrow> False) \<and>
      map_of ps name = None \<and> collision_free ps dst)"

definition tokens :: "str list \<Rightarrow> bool" where
  "tokens ps \<longleftrightarrow> (\<forall>p\<in>set ps. p \<noteq> [] \<and> (\<forall>c\<in>set p. \<not> isspace c))"

definition ends_with_hash :: "str \<Rightarrow> bool" where
  "ends_with_hash name \<longleftrightarrow> split_ws name \<noteq> [] \<and> HEX32_fullmatch (last (split_ws name))"

section \<open>Facts about the string functions\<close>

lemma replace_char_filter: "replace [a] [] s = filter (\<lambda>c. c \<noteq> a) s"
  by (induction s) auto

lemma dropWhile_fix: "dropWhile P xs = xs \<longleftrightarrow> xs = [] \<or> \<not> P (hd xs)"
  by (cases xs) (auto simp: dropWhile_eq_Cons_conv)

lemma rev_dropWhile_rev_prefix: "\<exists>zs. xs = rev (dropWhile P (rev xs)) @ zs \<and> (\<forall>z\<in>set zs. P z)"
proof -
  have "rev xs = takeWhile P (rev xs) @ dropWhile P (rev xs)" by simp
  then have "xs = rev (dropWhile P (rev xs)) @ rev (takeWhile P (rev xs))"
    by (metis rev_append rev_rev_ident)
  moreover have "\<forall>z\<in>set (rev (takeWhile P (rev xs))). P z"
    by (auto dest: set_takeWhileD)
  ultimately show ?thesis by blast
qed

lemma strip_idem: "strip (strip s) = strip s"
proof -
  define d where "d = dropWhile isspace s"
  define t where "t = rev (dropWhile isspace (rev d))"
  have ts: "strip s = t" by (simp add: strip_def t_def d_def)
  have "\<exists>zs. d = t @ zs"
    unfolding t_def using rev_dropWhile_rev_prefix [of d isspace] by blast
  then obtain zs where zs: "d = t @ zs" ..
  have "dropWhile isspace t = t"
  proof (cases "t = []")
    case True
    then show ?thesis by simp
  next
    case False
    then have "hd t = hd d" using zs by simp
    moreover have "d \<noteq> []" using False zs by simp
    ultimately have "\<not> isspace (hd t)" by (simp add: d_def hd_dropWhile)
    then show ?thesis by (simp add: dropWhile_fix)
  qed
  then have "strip t = rev (dropWhile isspace (rev t))" by (simp add: strip_def)
  also have "\<dots> = t" by (simp add: t_def dropWhile_idem)
  finally show ?thesis using ts by simp
qed

lemma strip_subset: "set (strip s) \<subseteq> set s"
proof -
  have "set (strip s) \<subseteq> set (dropWhile isspace s)"
    unfolding strip_def using set_dropWhileD [of _ isspace "rev (dropWhile isspace s)"]
    by auto
  also have "\<dots> \<subseteq> set s"
    using set_dropWhileD [of _ isspace s] by auto
  finally show ?thesis .
qed

lemma remove_brackets_filter:
  "remove_brackets s = strip (filter (\<lambda>c. c \<noteq> 93) (filter (\<lambda>c. c \<noteq> 91) s))"
  by (simp add: remove_brackets_def replace_char_filter)

lemma split_ws_Nil:
  assumes "dropWhile isspace s = []"
  shows "split_ws s = []"
  by (subst split_ws.simps) (simp only: assms list.case)

lemma split_ws_Cons:
  assumes "dropWhile isspace s = c # cs"
  shows "split_ws s =
    takeWhile (\<lambda>x. \<not> isspace x) (c # cs) # split_ws (dropWhile (\<lambda>x. \<not> isspace x) (c # cs))"
  by (subst split_ws.simps) (simp only: assms list.case)

lemma tokens_split_ws: "tokens (split_ws s)"
proof (induction s rule: split_ws.induct)
  case (1 s)
  show ?case
  proof (cases "dropWhile isspace s")
    case Nil
    then show ?thesis by (simp add: split_ws_Nil tokens_def)
  next
    case (Cons c cs)
    define t where "t = takeWhile (\<lambda>x. \<not> isspace x) (c # cs)"
    define r where "r = dropWhile (\<lambda>x. \<not> isspace x) (c # cs)"
    have nc: "\<not> isspace c" using Cons hd_dropWhile [of isspace s] by auto
    have ih: "tokens (split_ws r)"
      unfolding r_def by (rule 1 [OF Cons])
    have t1: "\<forall>x\<in>set t. \<not> isspace x"
      unfolding t_def by (auto dest: set_takeWhileD)
    have t2: "t \<noteq> []" unfolding t_def using nc by simp
    have "split_ws s = t # split_ws r"
      unfolding t_def r_def by (rule split_ws_Cons [OF Cons])
    then show ?thesis using ih t1 t2 by (simp add: tokens_def)
  qed
qed

lemma isspace_32: "isspace 32" by (simp add: isspace_def)

lemma split_ws_token_space:
  assumes "p \<noteq> []" "\<forall>c\<in>set p. \<not> isspace c"
  shows "split_ws (p @ 32 # rest) = p # split_ws rest"
proof -
  obtain c cs where p: "p = c # cs" using assms(1) by (cases p) auto
  have d: "dropWhile isspace (p @ 32 # rest) = c # (cs @ 32 # rest)"
    using assms(2) p by simp
  have t: "takeWhile (\<lambda>x. \<not> isspace x) (p @ 32 # rest) = p"
    using assms(2) by (simp add: takeWhile_append2 isspace_32)
  have r: "dropWhile (\<lambda>x. \<not> isspace x) (p @ 32 # rest) = 32 # rest"
    using assms(2) by (simp add: dropWhile_append2 isspace_32)
  have "split_ws (32 # rest) = split_ws rest"
    by (subst split_ws.simps, subst (2) split_ws.simps) (simp add: isspace_32)
  then show ?thesis
    using split_ws_Cons [OF d] t r p by simp
qed

lemma split_ws_token:
  assumes "p \<noteq> []" "\<forall>c\<in>set p. \<not> isspace c"
  shows "split_ws p = [p]"
proof -
  obtain c cs where p: "p = c # cs" using assms(1) by (cases p) auto
  have d: "dropWhile isspace p = c # cs" using assms(2) p by simp
  have t: "takeWhile (\<lambda>x. \<not> isspace x) p = p" using assms(2) by (simp add: takeWhile_eq_all_conv)
  have r: "dropWhile (\<lambda>x. \<not> isspace x) p = []" using assms(2) by simp
  show ?thesis using split_ws_Cons [OF d] t r p by (simp add: split_ws_Nil)
qed

lemma split_ws_join: "tokens ps \<Longrightarrow> split_ws (join (lit '' '') ps) = ps"
proof (induction "lit '' ''" ps rule: join.induct)
  case 1
  then show ?case by (simp add: split_ws_Nil)
next
  case (2 x)
  then show ?case by (simp add: split_ws_token tokens_def)
next
  case (3 x y ys)
  then have "split_ws (join (lit '' '') (y # ys)) = y # ys" by (simp add: tokens_def)
  moreover have "x \<noteq> []" "\<forall>c\<in>set x. \<not> isspace c" using 3(2) by (auto simp: tokens_def)
  ultimately show ?case using split_ws_token_space [of x "join (lit '' '') (y # ys)"] by simp
qed

lemma join_snoc: "ps \<noteq> [] \<Longrightarrow> join sep (ps @ [p]) = join sep ps @ sep @ p"
  by (induction sep ps rule: join.induct) auto

lemma rstrip_chars_append:
  "rstrip_chars cs (xs @ ys) =
     (if \<forall>y\<in>set ys. y \<in> set cs then rstrip_chars cs xs else xs @ rstrip_chars cs ys)"
  by (auto simp: rstrip_chars_def dropWhile_append)

lemma rstrip_chars_decomp:
  "\<exists>zs. s = rstrip_chars cs s @ zs \<and> set zs \<subseteq> set cs"
  unfolding rstrip_chars_def using rev_dropWhile_rev_prefix [of s "\<lambda>c. c \<in> set cs"] by auto

lemma rstrip_chars_last: "rstrip_chars cs s \<noteq> [] \<Longrightarrow> last (rstrip_chars cs s) \<notin> set cs"
proof -
  assume a: "rstrip_chars cs s \<noteq> []"
  then have "dropWhile (\<lambda>c. c \<in> set cs) (rev s) \<noteq> []" by (simp add: rstrip_chars_def)
  then have "hd (dropWhile (\<lambda>c. c \<in> set cs) (rev s)) \<notin> set cs" by (rule hd_dropWhile)
  then show ?thesis using a by (simp add: rstrip_chars_def last_rev)
qed

lemma rstrip_chars_subset: "set (rstrip_chars cs s) \<subseteq> set s"
  unfolding rstrip_chars_def using set_dropWhileD [of _ "\<lambda>c. c \<in> set cs" "rev s"] by auto

lemma rstrip_join_tokens:
  "tokens ps \<Longrightarrow> 32 \<in> set cs \<Longrightarrow>
   \<exists>qs. tokens qs \<and> rstrip_chars cs (join (lit '' '') ps) = join (lit '' '') qs"
proof (induction ps rule: rev_induct)
  case Nil
  have "tokens []" by (simp add: tokens_def)
  moreover have "rstrip_chars cs (join (lit '' '') []) = join (lit '' '') []"
    by (simp add: rstrip_chars_def)
  ultimately show ?case by blast
next
  case (snoc p ps)
  have tp: "tokens ps" using snoc.prems(1) by (simp add: tokens_def)
  have pws: "\<forall>c\<in>set (rstrip_chars cs p). \<not> isspace c"
    using snoc.prems(1) rstrip_chars_subset [of cs p] by (auto simp: tokens_def)
  show ?case
  proof (cases "\<forall>y\<in>set p. y \<in> set cs")
    case True
    show ?thesis
    proof (cases "ps = []")
      case True
      have "rstrip_chars cs p = []"
        using \<open>\<forall>y\<in>set p. y \<in> set cs\<close> by (simp add: rstrip_chars_def)
      then have "rstrip_chars cs (join (lit '' '') (ps @ [p])) = join (lit '' '') []"
        using True by simp
      moreover have "tokens []" by (simp add: tokens_def)
      ultimately show ?thesis by blast
    next
      case False
      have "rstrip_chars cs (join (lit '' '') (ps @ [p])) = rstrip_chars cs (join (lit '' '') ps)"
        using True snoc.prems(2) False
        by (simp add: join_snoc rstrip_chars_append)
      then show ?thesis using snoc.IH [OF tp snoc.prems(2)] by simp
    qed
  next
    case False
    then have ne: "rstrip_chars cs p \<noteq> []"
      by (auto simp: rstrip_chars_def)
    have tq: "tokens (ps @ [rstrip_chars cs p])"
      using tp pws ne by (auto simp: tokens_def)
    have "rstrip_chars cs (join (lit '' '') (ps @ [p])) = join (lit '' '') (ps @ [rstrip_chars cs p])"
    proof (cases "ps = []")
      case True
      then show ?thesis by simp
    next
      case F: False
      have a: "rstrip_chars cs ([32] @ p) = [32] @ rstrip_chars cs p"
        using False by (subst rstrip_chars_append) auto
      have b: "rstrip_chars cs (join [32] ps @ ([32] @ p)) =
               join [32] ps @ rstrip_chars cs ([32] @ p)"
        using False by (subst rstrip_chars_append) auto
      show ?thesis using F a b by (simp add: join_snoc)
    qed
    then show ?thesis using tq by blast
  qed
qed

lemma tokens_butlast: "tokens ps \<Longrightarrow> tokens (butlast ps)"
  by (auto simp: tokens_def dest: in_set_butlastD)

lemma strip_hash_hit:
  "split_ws f \<noteq> [] \<Longrightarrow> HEX32_fullmatch (last (split_ws f)) \<Longrightarrow>
   strip_hash f = rstrip_chars (lit '' |_'') (join (lit '' '') (butlast (split_ws f)))"
  by (simp add: strip_hash_def)

lemma strip_hash_miss:
  "\<not> (split_ws f \<noteq> [] \<and> HEX32_fullmatch (last (split_ws f))) \<Longrightarrow> strip_hash f = f"
  by (auto simp: strip_hash_def Let_def)

lemma split_ws_eval:
  "split_ws [] = []"
  "isspace c \<Longrightarrow> split_ws (c # cs) = split_ws cs"
  "\<not> isspace c \<Longrightarrow> split_ws (c # cs) =
     takeWhile (\<lambda>x. \<not> isspace x) (c # cs) # split_ws (dropWhile (\<lambda>x. \<not> isspace x) cs)"
proof -
  show "split_ws [] = []" by (simp add: split_ws_Nil)
next
  assume a: "isspace c"
  show "split_ws (c # cs) = split_ws cs"
    by (subst split_ws.simps, subst (2) split_ws.simps) (simp add: a)
next
  assume a: "\<not> isspace c"
  have "dropWhile isspace (c # cs) = c # cs" using a by simp
  from split_ws_Cons [OF this] show "split_ws (c # cs) =
     takeWhile (\<lambda>x. \<not> isspace x) (c # cs) # split_ws (dropWhile (\<lambda>x. \<not> isspace x) cs)"
    using a by simp
qed

lemma split_ws_ex1:
  "split_ws (lit ''a  b 0123456789abcdef0123456789ABCDEF'') =
     [lit ''a'', lit ''b'', lit ''0123456789abcdef0123456789ABCDEF'']"
  by (simp add: split_ws_eval isspace_def)

lemma split_ws_ex2:
  "split_ws (lit ''a 0123456789abcdef0123456789abcdef 0123456789abcdef0123456789abcdef'') =
     [lit ''a'', lit ''0123456789abcdef0123456789abcdef'', lit ''0123456789abcdef0123456789abcdef'']"
  by (simp add: split_ws_eval isspace_def)

lemma split_ws_ex3:
  "split_ws (lit ''a 0123456789abcdef0123456789abcdef'') =
     [lit ''a'', lit ''0123456789abcdef0123456789abcdef'']"
  by (simp add: split_ws_eval isspace_def)

lemma strip_hash_ex1:
  "strip_hash (lit ''a  b 0123456789abcdef0123456789ABCDEF'') = lit ''a b''"
  using split_ws_ex1 by (simp add: strip_hash_def HEX32_fullmatch_def is_hex_def rstrip_chars_def)

lemma strip_hash_ex2:
  "strip_hash (lit ''a 0123456789abcdef0123456789abcdef 0123456789abcdef0123456789abcdef'') =
   lit ''a 0123456789abcdef0123456789abcdef''"
  using split_ws_ex2 by (simp add: strip_hash_def HEX32_fullmatch_def is_hex_def rstrip_chars_def)

lemma strip_hash_ex3:
  "strip_hash (lit ''a 0123456789abcdef0123456789abcdef'') = lit ''a''"
  using split_ws_ex3 by (simp add: strip_hash_def HEX32_fullmatch_def is_hex_def rstrip_chars_def)

lemma split_ws_ex4: "split_ws (lit ''a b'') = [lit ''a'', lit ''b'']"
  by (simp add: split_ws_eval isspace_def)

lemma ends_with_hash_ex1: "ends_with_hash (lit ''a  b 0123456789abcdef0123456789ABCDEF'')"
  using split_ws_ex1 by (simp add: ends_with_hash_def HEX32_fullmatch_def is_hex_def)

lemma ends_with_hash_ex4: "\<not> ends_with_hash (lit ''a b'')"
  using split_ws_ex4 by (simp add: ends_with_hash_def HEX32_fullmatch_def)

section \<open>Claims about the name normalizer\<close>

text \<open>
  C8.  For every string \<open>s\<close>, \<open>remove_brackets s\<close> contains neither an opening nor a
  closing square bracket, and applying \<open>remove_brackets\<close> a second time changes nothing.
\<close>

theorem remove_brackets_no_brackets_idempotent:
  "of_char CHR ''['' \<notin> set (remove_brackets s) \<and> of_char CHR '']'' \<notin> set (remove_brackets s) \<and>
   remove_brackets (remove_brackets s) = remove_brackets s"
proof -
  let ?f = "filter (\<lambda>c. c \<noteq> 93) (filter (\<lambda>c. c \<noteq> (91::nat)) s)"
  have r: "remove_brackets s = strip ?f" by (rule remove_brackets_filter)
  have sub: "set (strip ?f) \<subseteq> set ?f" by (rule strip_subset)
  have no: "91 \<notin> set (strip ?f) \<and> 93 \<notin> set (strip ?f)" using sub by auto
  have "filter (\<lambda>c. c \<noteq> 93) (filter (\<lambda>c. c \<noteq> (91::nat)) (strip ?f)) = strip ?f"
    using no by (auto simp: filter_id_conv)
  then have "remove_brackets (strip ?f) = strip ?f"
    by (simp add: remove_brackets_filter strip_idem)
  then show ?thesis using r no by simp
qed

text \<open>
  C5.  As stated the claim fails: \<open>strip_hash\<close> removes one trailing token only, so a name
  that carries two hash tokens is shortened again by a second application.
\<close>

theorem strip_hash_not_idempotent:
  "strip_hash (strip_hash
     (lit ''a 0123456789abcdef0123456789abcdef 0123456789abcdef0123456789abcdef'')) \<noteq>
   strip_hash (lit ''a 0123456789abcdef0123456789abcdef 0123456789abcdef0123456789abcdef'')"
  using strip_hash_ex2 strip_hash_ex3 by simp

text \<open>
  C5, amended.  When the last white-space separated token of \<open>f\<close> is a 32-character
  hexadecimal token, \<open>strip_hash f\<close> is the single-space join of the other tokens with
  its trailing run of separator characters (space, pipe, underscore) removed: the join is
  \<open>strip_hash f\<close> followed by separators only, and \<open>strip_hash f\<close> does not end in a
  separator.  A name without such a final token is returned unchanged.  A second
  application changes nothing whenever the result does not itself end in a 32-character
  hexadecimal token.
\<close>

theorem strip_hash_drops_final_token:
  "(ends_with_hash f \<longrightarrow>
      (\<exists>seps. set seps \<subseteq> set (lit '' |_'') \<and>
              join (lit '' '') (butlast (split_ws f)) = strip_hash f @ seps) \<and>
      (strip_hash f = [] \<or> last (strip_hash f) \<notin> set (lit '' |_''))) \<and>
   (\<not> ends_with_hash f \<longrightarrow> strip_hash f = f) \<and>
   (\<not> ends_with_hash (strip_hash f) \<longrightarrow> strip_hash (strip_hash f) = strip_hash f)"
proof (intro conjI impI)
  assume h: "ends_with_hash f"
  then have eq: "strip_hash f = rstrip_chars (lit '' |_'') (join (lit '' '') (butlast (split_ws f)))"
    by (simp add: ends_with_hash_def strip_hash_hit)
  show "\<exists>seps. set seps \<subseteq> set (lit '' |_'') \<and>
              join (lit '' '') (butlast (split_ws f)) = strip_hash f @ seps"
    unfolding eq
    using rstrip_chars_decomp [of "join (lit '' '') (butlast (split_ws f))" "lit '' |_''"]
    by blast
  show "strip_hash f = [] \<or> last (strip_hash f) \<notin> set (lit '' |_'')"
    unfolding eq
    using rstrip_chars_last [of "lit '' |_''" "join (lit '' '') (butlast (split_ws f))"]
    by blast
next
  assume "\<not> ends_with_hash f"
  then show "strip_hash f = f" by (simp add: ends_with_hash_def strip_hash_miss)
next
  assume "\<not> ends_with_hash (strip_hash f)"
  then show "strip_hash (strip_hash f) = strip_hash f"
    by (simp add: ends_with_hash_def strip_hash_miss)
qed

theorem strip_hash_drops_final_token_witness:
  "ends_with_hash (lit ''a  b 0123456789abcdef0123456789ABCDEF'') \<and>
   \<not> ends_with_hash (lit ''a b'') \<and>
   strip_hash (lit ''a  b 0123456789abcdef0123456789ABCDEF'') = lit ''a b'' \<and>
   strip_hash (lit ''a b'') = lit ''a b'' \<and>
   strip_hash (strip_hash (lit ''a  b 0123456789abcdef0123456789ABCDEF'')) =
     strip_hash (lit ''a  b 0123456789abcdef0123456789ABCDEF'')"
  using strip_hash_drops_final_token [of "lit ''a  b 0123456789abcdef0123456789ABCDEF''"]
    strip_hash_drops_final_token [of "lit ''a b''"]
    ends_with_hash_ex1 ends_with_hash_ex4 strip_hash_ex1
  by simp

text \<open>
  C10.  When the last white-space separated token of the name is a 32-character
  hexadecimal token, the result of \<open>strip_hash\<close> is white-space normalised: it equals
  its own tokens joined by single spaces (so every run of white space between the
  surviving tokens has become one space, and none leads or trails), and it is the
  single-space join of the tokens before the hash up to trailing separator characters.
\<close>

theorem strip_hash_normalizes_whitespace:
  assumes "ends_with_hash f"
  shows "join (lit '' '') (split_ws (strip_hash f)) = strip_hash f \<and>
         (\<exists>seps. set seps \<subseteq> set (lit '' |_'') \<and>
                 join (lit '' '') (butlast (split_ws f)) = strip_hash f @ seps)"
proof -
  have h: "split_ws f \<noteq> []" "HEX32_fullmatch (last (split_ws f))"
    using assms by (simp_all add: ends_with_hash_def)
  have t: "tokens (butlast (split_ws f))" by (rule tokens_butlast [OF tokens_split_ws])
  have "32 \<in> set (lit '' |_'')" by simp
  from rstrip_join_tokens [OF t this] obtain qs where
    qs: "tokens qs" "strip_hash f = join (lit '' '') qs"
    using strip_hash_hit [OF h] by auto
  have a: "join (lit '' '') (split_ws (strip_hash f)) = strip_hash f"
    using qs split_ws_join [OF qs(1)] by simp
  have b: "\<exists>seps. set seps \<subseteq> set (lit '' |_'') \<and>
                 join (lit '' '') (butlast (split_ws f)) = strip_hash f @ seps"
    using rstrip_chars_decomp [of "join (lit '' '') (butlast (split_ws f))" "lit '' |_''"]
    unfolding strip_hash_hit [OF h] by blast
  show ?thesis using a b by blast
qed

theorem strip_hash_normalizes_whitespace_witness:
  "ends_with_hash (lit ''a  b 0123456789abcdef0123456789ABCDEF'') \<and>
   strip_hash (lit ''a  b 0123456789abcdef0123456789ABCDEF'') = lit ''a b'' \<and>
   join (lit '' '') (split_ws (strip_hash (lit ''a  b 0123456789abcdef0123456789ABCDEF''))) =
     strip_hash (lit ''a  b 0123456789abcdef0123456789ABCDEF'')"
  using ends_with_hash_ex1 strip_hash_normalizes_whitespace [OF ends_with_hash_ex1]
    strip_hash_ex1
  by simp

section \<open>Claims about the folder matcher\<close>














section \<open>Claims about the orchestrator\<close>

lemma ends_hex32_iff:
  "ends_hex32 s \<longleftrightarrow> (\<exists>pre h. s = pre @ h \<and> length h = 32 \<and> (\<forall>c\<in>set h. is_hex c))"
proof
  assume a: "ends_hex32 s"
  let ?pre = "take (length s - 32) s" and ?h = "drop (length s - 32) s"
  have "s = ?pre @ ?h" by simp
  moreover have "length ?h = 32" using a by (simp add: ends_hex32_def)
  moreover have "\<forall>c\<in>set ?h. is_hex c" using a by (simp add: ends_hex32_def list_all_iff)
  ultimately show "\<exists>pre h. s = pre @ h \<and> length h = 32 \<and> (\<forall>c\<in>set h. is_hex c)" by blast
next
  assume "\<exists>pre h. s = pre @ h \<and> length h = 32 \<and> (\<forall>c\<in>set h. is_hex c)"
  then obtain pre h where "s = pre @ h" "length h = 32" "\<forall>c\<in>set h. is_hex c" by blast
  then show "ends_hex32 s" by (simp add: ends_hex32_def list_all_iff)
qed

lemma HEX32_search_iff:
  "HEX32_search s \<longleftrightarrow>
     (\<exists>pre h. (s = pre @ h \<or> s = pre @ h @ [10]) \<and> length h = 32 \<and> (\<forall>c\<in>set h. is_hex c))"
proof
  assume "HEX32_search s"
  then consider "ends_hex32 s" | "s \<noteq> []" "last s = 10" "ends_hex32 (butlast s)"
    by (auto simp: HEX32_search_def)
  then show "\<exists>pre h. (s = pre @ h \<or> s = pre @ h @ [10]) \<and> length h = 32 \<and> (\<forall>c\<in>set h. is_hex c)"
  proof cases
    case 1
    then show ?thesis unfolding ends_hex32_iff by blast
  next
    case 2
    from 2(3) obtain pre h where
      ph: "butlast s = pre @ h" "length h = 32" "\<forall>c\<in>set h. is_hex c"
      unfolding ends_hex32_iff by blast
    have "s = butlast s @ [last s]" using 2(1) by simp
    then have "s = pre @ h @ [10]" using ph(1) 2(2) by simp
    then show ?thesis using ph by blast
  qed
next
  assume "\<exists>pre h. (s = pre @ h \<or> s = pre @ h @ [10]) \<and> length h = 32 \<and> (\<forall>c\<in>set h. is_hex c)"
  then obtain pre h where
    ph: "s = pre @ h \<or> s = pre @ h @ [10]" "length h = 32" "\<forall>c\<in>set h. is_hex c" by blast
  from ph(1) show "HEX32_search s"
  proof
    assume "s = pre @ h"
    then have "ends_hex32 s" unfolding ends_hex32_iff using ph by blast
    then show ?thesis by (simp add: HEX32_search_def)
  next
    assume s: "s = pre @ h @ [10]"
    then have "butlast s = pre @ h" by (simp add: butlast_append)
    then have "ends_hex32 (butlast s)" unfolding ends_hex32_iff using ph by blast
    then show ?thesis using s by (simp add: HEX32_search_def)
  qed
qed

lemma distinct_names_folders:
  assumes "distinct (map fst listing)"
  shows "distinct (map fst (folders listing))"
proof -
  from assms have "distinct listing" "inj_on fst (set listing)"
    by (simp_all add: distinct_map)
  then have "distinct (map fst (sort_key fst listing))"
    by (simp add: distinct_map)
  then show ?thesis unfolding folders_def by (rule distinct_map_filter)
qed

lemma HEX32_search_ex:
  "HEX32_search (lit ''a 0123456789abcdef0123456789abcdeF'')"
  "HEX32_search (lit ''b 0123456789abcdef0123456789abcdef'')"
  "\<not> HEX32_search (lit ''c'')"
  "\<not> HEX32_search (lit ''0123456789abcdef0123456789abcdef x'')"
  by (simp_all add: HEX32_search_def ends_hex32_def is_hex_def)

lemma folders_ex:
  "folders [(lit ''b 0123456789abcdef0123456789abcdef'', True),
            (lit ''a 0123456789abcdef0123456789abcdeF'', True),
            (lit ''c'', True),
            (lit ''d 0123456789abcdef0123456789abcdef'', False)] =
     [(lit ''a 0123456789abcdef0123456789abcdeF'', True),
      (lit ''b 0123456789abcdef0123456789abcdef'', True)]"
  using HEX32_search_ex by (simp add: folders_def)

text \<open>
  C3.  As stated the claim fails: the pattern ends in \<^verbatim>\<open>$\<close>, so a directory whose name
  has a 32-character hexadecimal token followed by more text is not a candidate.
\<close>

theorem hash_inside_name_not_selected:
  "HEX32_fullmatch (hd (split_ws (lit ''0123456789abcdef0123456789abcdef x''))) \<and>
   schedule [(lit ''0123456789abcdef0123456789abcdef x'', True)] = []"
  using HEX32_search_ex(4)
  by (simp add: schedule_def folders_def split_ws_eval isspace_def HEX32_fullmatch_def
      is_hex_def enumerate_simps)

text \<open>
  C3, amended.  The candidates are exactly the entries of the working directory that are
  directories and whose name ends with 32 hexadecimal characters, optionally followed by
  one final line feed.  They are processed in sorted order of their names, numbered from 1
  in that order, and distinct names stay distinct.
\<close>

theorem schedule_selects_sorted:
  "map snd (schedule listing) = folders listing \<and>
   map fst (schedule listing) = [1..<Suc (length (folders listing))] \<and>
   sorted (map fst (folders listing)) \<and>
   (\<forall>e. e \<in> set (folders listing) \<longleftrightarrow>
      e \<in> set listing \<and> snd e \<and>
      (\<exists>pre h. (fst e = pre @ h \<or> fst e = pre @ h @ [10]) \<and> length h = 32 \<and>
         (\<forall>c\<in>set h. is_hex c))) \<and>
   (distinct (map fst listing) \<longrightarrow> distinct (map fst (folders listing)))"
proof (intro conjI allI impI)
  show "map snd (schedule listing) = folders listing"
    by (simp add: schedule_def)
  show "map fst (schedule listing) = [1..<Suc (length (folders listing))]"
    by (simp add: schedule_def)
  show "sorted (map fst (folders listing))"
    unfolding folders_def by (rule sorted_filter) simp
  show "e \<in> set (folders listing) \<longleftrightarrow>
      e \<in> set listing \<and> snd e \<and>
      (\<exists>pre h. (fst e = pre @ h \<or> fst e = pre @ h @ [10]) \<and> length h = 32 \<and>
         (\<forall>c\<in>set h. is_hex c))" for e
    unfolding HEX32_search_iff [symmetric] by (auto simp: folders_def)
  show "distinct (map fst (folders listing))" if "distinct (map fst listing)"
    using that by (rule distinct_names_folders)
qed

theorem schedule_selects_sorted_witness:
  "distinct (map fst
     [(lit ''b 0123456789abcdef0123456789abcdef'', True),
      (lit ''a 0123456789abcdef0123456789abcdeF'', True),
      (lit ''c'', True),
      (lit ''d 0123456789abcdef0123456789abcdef'', False)]) \<and>
   map snd (schedule
     [(lit ''b 0123456789abcdef0123456789abcdef'', True),
      (lit ''a 0123456789abcdef0123456789abcdeF'', True),
      (lit ''c'', True),
      (lit ''d 0123456789abcdef0123456789abcdef'', False)]) =
     [(lit ''a 0123456789abcdef0123456789abcdeF'', True),
      (lit ''b 0123456789abcdef0123456789abcdef'', True)] \<and>
   map fst (schedule
     [(lit ''b 0123456789abcdef0123456789abcdef'', True),
      (lit ''a 0123456789abcdef0123456789abcdeF'', True),
      (lit ''c'', True),
      (lit ''d 0123456789abcdef0123456789abcdef'', False)]) = [1, 2]"
  using schedule_selects_sorted
     [of "[(lit ''b 0123456789abcdef0123456789abcdef'', True),
           (lit ''a 0123456789abcdef0123456789abcdeF'', True),
           (lit ''c'', True),
           (lit ''d 0123456789abcdef0123456789abcdef'', False)]"]
    folders_ex
  by (simp add: upt_rec)

section \<open>Claims about the link rewriter\<close>











lemma bak_differs: "md_path @ lit ''.bak'' \<noteq> md_path"
  by simp













lemma those_map_Some: "those (map Some ys) = Some ys"
  by (induction ys) auto



































section \<open>Claims about the folder renamer\<close>

text \<open>
  C1.  The code does not do what the claim says when a file of the source collides with
  an entry of the destination: the file is skipped and stays in the source, so
  \<^verbatim>\<open>src.rmdir()\<close> raises and the source still exists.  Raised in a subdirectory, the
  exception also ends the loop of the parent, and the entries not yet visited stay where
  they were, colliding or not.  The destination is as it was in both runs.
\<close>

theorem rename_folder_collision_raises:
  "rename_folder [(lit ''x.png'', File (lit ''new''))] (Some [(lit ''x.png'', File (lit ''old''))]) =
     Raised DirectoryNotEmpty [(lit ''x.png'', File (lit ''new''))]
       [(lit ''x.png'', File (lit ''old''))] \<and>
   rename_folder
     [(lit ''d'', Dir [(lit ''x.png'', File (lit ''new''))]), (lit ''z.png'', File (lit ''z''))]
     (Some [(lit ''d'', Dir [(lit ''x.png'', File (lit ''old''))])]) =
     Raised DirectoryNotEmpty
       [(lit ''d'', Dir [(lit ''x.png'', File (lit ''new''))]), (lit ''z.png'', File (lit ''z''))]
       [(lit ''d'', Dir [(lit ''x.png'', File (lit ''old''))])]"
  by (simp add: rename_folder_def)

lemma lookup_absent: "map_of es n = None \<Longrightarrow> lookup es (n # path) = None"
  by (cases path) auto

lemma lookup_update_other:
  "n \<noteq> name \<Longrightarrow> lookup (AList.update name v es) (n # path) = lookup es (n # path)"
  by (cases path) (auto simp: update_conv')

lemma lookup_update_dir:
  "lookup (AList.update name (Dir ds') es) (name # m # path) = lookup ds' (m # path)"
  by (simp add: update_conv')

lemma lookup_after_dir_update:
  assumes l: "lookup dst path = Some (File c)"
    and t: "\<forall>c. map_of dst name \<noteq> Some (File c)"
    and keep: "\<forall>p c. lookup (case map_of dst name of Some (Dir ds) \<Rightarrow> ds | _ \<Rightarrow> []) p = Some (File c)
               \<longrightarrow> lookup ds' p = Some (File c)"
  shows "lookup (AList.update name (Dir ds') dst) path = Some (File c)"
proof (cases path)
  case Nil
  then show ?thesis using l by simp
next
  case (Cons n rest)
  show ?thesis
  proof (cases "n = name")
    case False
    then show ?thesis using l Cons by (simp add: lookup_update_other)
  next
    case True
    show ?thesis
    proof (cases rest)
      case Nil
      then have "map_of dst name = Some (File c)" using l Cons True by simp
      then show ?thesis using t by simp
    next
      case (Cons m rest')
      with l \<open>path = n # rest\<close> True obtain ds where
        ds: "map_of dst name = Some (Dir ds)" "lookup ds (m # rest') = Some (File c)"
        by (auto split: option.splits node.splits)
      then have "lookup ds' (m # rest') = Some (File c)" using keep by simp
      then show ?thesis using Cons \<open>path = n # rest\<close> True by (simp add: update_conv')
    qed
  qed
qed

lemma merge_keeps_destination_files:
  "(\<forall>path c. lookup dst path = Some (File c) \<longrightarrow>
      lookup (dst_after (rename_merge src dst)) path = Some (File c))"
  "(\<forall>path c. lookup dst path = Some (File c) \<longrightarrow>
      lookup (fst (snd (merge_loop src dst))) path = Some (File c))"
proof (induction src dst and src dst rule: rename_merge_merge_loop.induct)
  case (1 src dst)
  then show ?case by (auto split: prod.splits option.splits)
next
  case (2 dst)
  then show ?case by simp
next
  case (3 name c0 ps dst)
  show ?case
  proof (intro allI impI)
    fix path c
    assume l: "lookup dst path = Some (File c)"
    show "lookup (fst (snd (merge_loop ((name, File c0) # ps) dst))) path = Some (File c)"
    proof (cases "map_of dst name = None")
      case True
      obtain n rest where p: "path = n # rest" using l by (cases path) auto
      have "n \<noteq> name" using l p lookup_absent [OF True] by auto
      then have "lookup (AList.update name (File c0) dst) path = Some (File c)"
        using l p by (simp add: lookup_update_other)
      then show ?thesis using 3(1) [OF True] True by simp
    next
      case False
      then show ?thesis using 3(2) [OF False] l by (auto split: prod.splits)
    qed
  qed
next
  case (4 name cs ps dst)
  show ?case
  proof (intro allI impI)
    fix path c
    assume l: "lookup dst path = Some (File c)"
    show "lookup (fst (snd (merge_loop ((name, Dir cs) # ps) dst))) path = Some (File c)"
    proof (cases "map_of dst name")
      case None
      let ?o = "rename_merge cs []"
      have keep: "\<forall>p c. lookup [] p = Some (File c) \<longrightarrow> lookup (dst_after ?o) p = Some (File c)"
        using 4(1) [OF None] by simp
      have u: "lookup (AList.update name (Dir (dst_after ?o)) dst) path = Some (File c)"
        by (rule lookup_after_dir_update [OF l]) (use None keep in simp_all)
      show ?thesis
      proof (cases ?o)
        case (Done x1)
        then show ?thesis using 4(2) [OF None] None u by simp
      next
        case (Raised e left ds')
        then show ?thesis using None u by simp
      qed
    next
      case (Some t)
      show ?thesis
      proof (cases t)
        case (File c1)
        then show ?thesis using Some l by simp
      next
        case (Dir ds)
        let ?o = "rename_merge cs ds"
        have keep: "\<forall>p c. lookup ds p = Some (File c) \<longrightarrow> lookup (dst_after ?o) p = Some (File c)"
          using 4(3) [OF Some Dir] by simp
        have u: "lookup (AList.update name (Dir (dst_after ?o)) dst) path = Some (File c)"
          by (rule lookup_after_dir_update [OF l]) (use Some Dir keep in simp_all)
        show ?thesis
        proof (cases ?o)
          case (Done x1)
          then show ?thesis using 4(4) [OF Some Dir] Some Dir u by simp
        next
          case (Raised e left ds')
          then show ?thesis using Some Dir u by simp
        qed
      qed
    qed
  qed
qed

text \<open>
  What the claim says of the destination holds in every run, also when an exception ends
  it: a file that the destination had is still there with its content.
\<close>

theorem rename_folder_keeps_destination_files:
  "lookup d path = Some (File c) \<Longrightarrow>
   lookup (dst_after (rename_folder src (Some d))) path = Some (File c)"
  using merge_keeps_destination_files(1) [of d src] by (simp add: rename_folder_def)

text \<open>
  Without a collision the loop moves every entry, \<^verbatim>\<open>src.rmdir()\<close> finds the source empty and
  the function returns: every file of the source is then in the destination under the same
  relative path and with its content, beside the files that the destination had.
\<close>

lemma lookup_Nil: "lookup [] path = None"
proof (cases path)
  case Nil
  then show ?thesis by simp
next
  case (Cons n rest)
  then show ?thesis by (cases rest) simp_all
qed

lemma lookup_Cons_other:
  "n \<noteq> name \<Longrightarrow> lookup ((name, v) # ps) (n # rest) = lookup ps (n # rest)"
  by (cases rest) auto

lemma collision_free_cong:
  "(\<forall>n. map_of ps n \<noteq> None \<longrightarrow> map_of dst n = map_of dst' n) \<Longrightarrow> collision_free ps dst = collision_free ps dst'"
proof (induction ps)
  case Nil
  then show ?case by simp
next
  case (Cons e ps)
  obtain name v where e: "e = (name, v)" by (cases e) auto
  have same: "map_of dst name = map_of dst' name" using Cons.prems e by simp
  have "\<forall>n. map_of ps n \<noteq> None \<longrightarrow> map_of dst n = map_of dst' n"
    using Cons.prems e by auto
  then have ih: "collision_free ps dst = collision_free ps dst'" by (rule Cons.IH)
  show ?case using e same ih by (cases v) simp_all
qed

lemma collision_free_update:
  assumes "map_of ps name = None"
  shows "collision_free ps (AList.update name v dst) = collision_free ps dst"
  by (rule collision_free_cong) (use assms in \<open>auto simp: update_conv'\<close>)

lemma merge_without_collision:
  "collision_free src dst \<longrightarrow>
     (\<exists>d'. rename_merge src dst = Done d' \<and>
        (\<forall>path c. lookup src path = Some (File c) \<longrightarrow> lookup d' path = Some (File c)))"
  "collision_free src dst \<longrightarrow>
     (\<exists>d'. merge_loop src dst = ([], d', None) \<and>
        (\<forall>path c. lookup src path = Some (File c) \<longrightarrow> lookup d' path = Some (File c)))"
proof (induction src dst and src dst rule: rename_merge_merge_loop.induct)
  case (1 src dst)
  then show ?case by auto
next
  case (2 dst)
  then show ?case by (simp add: lookup_Nil)
next
  case (3 name c0 ps dst)
  show ?case
  proof
    assume cl: "collision_free ((name, File c0) # ps) dst"
    then have abs: "map_of dst name = None" and fresh: "map_of ps name = None"
      and clps: "collision_free ps dst" by simp_all
    let ?d1 = "AList.update name (File c0) dst"
    have "collision_free ps ?d1" using clps collision_free_update [OF fresh] by simp
    with 3(1) [OF abs] obtain d' where
      d': "merge_loop ps ?d1 = ([], d', None)"
      and ih: "\<forall>path c. lookup ps path = Some (File c) \<longrightarrow> lookup d' path = Some (File c)"
      by blast
    have eq: "merge_loop ((name, File c0) # ps) dst = ([], d', None)"
      using abs d' by simp
    have keep: "lookup d' path = Some (File c)" if "lookup ?d1 path = Some (File c)" for path c
      using merge_keeps_destination_files(2) [of ?d1 ps] that d' by simp
    have "lookup d' path = Some (File c)"
      if l: "lookup ((name, File c0) # ps) path = Some (File c)" for path c
    proof -
      obtain n rest where p: "path = n # rest" using l by (cases path) auto
      show ?thesis
      proof (cases "n = name")
        case True
        then have "rest = [] \<and> c = c0" using l p by (cases rest) auto
        then have "lookup ?d1 path = Some (File c)"
          using p True by (simp add: update_conv')
        then show ?thesis by (rule keep)
      next
        case False
        then show ?thesis using l p ih by (simp add: lookup_Cons_other)
      qed
    qed
    then show "\<exists>d'. merge_loop ((name, File c0) # ps) dst = ([], d', None) \<and>
        (\<forall>path c. lookup ((name, File c0) # ps) path = Some (File c) \<longrightarrow>
           lookup d' path = Some (File c))"
      using eq by blast
  qed
next
  case (4 name cs ps dst)
  show ?case
  proof
    assume cl: "collision_free ((name, Dir cs) # ps) dst"
    then have fresh: "map_of ps name = None" and clps: "collision_free ps dst" by simp_all
    define ds0 where "ds0 = (case map_of dst name of Some (Dir ds) \<Rightarrow> ds | _ \<Rightarrow> [])"
    have nofile: "\<forall>c. map_of dst name \<noteq> Some (File c)"
      using cl by (auto split: option.splits node.splits)
    have clcs: "collision_free cs ds0"
      using cl by (auto simp: ds0_def split: option.splits node.splits)
    have P: "collision_free cs ds0 \<longrightarrow>
       (\<exists>d'. rename_merge cs ds0 = Done d' \<and>
          (\<forall>path c. lookup cs path = Some (File c) \<longrightarrow> lookup d' path = Some (File c)))"
    proof (cases "map_of dst name")
      case None
      then show ?thesis using 4(1) [OF None] by (simp add: ds0_def)
    next
      case (Some t)
      then obtain ds where t: "t = Dir ds" using nofile by (cases t) auto
      show ?thesis using 4(3) [OF Some t] Some t by (simp add: ds0_def)
    qed
    with clcs obtain ds' where
      ds': "rename_merge cs ds0 = Done ds'"
      and ihc: "\<forall>path c. lookup cs path = Some (File c) \<longrightarrow> lookup ds' path = Some (File c)"
      by blast
    let ?d1 = "AList.update name (Dir ds') dst"
    have step: "merge_loop ((name, Dir cs) # ps) dst = merge_loop ps ?d1"
      using ds' nofile by (auto simp: ds0_def split: option.splits node.splits)
    have Q: "collision_free ps ?d1 \<longrightarrow>
       (\<exists>d'. merge_loop ps ?d1 = ([], d', None) \<and>
          (\<forall>path c. lookup ps path = Some (File c) \<longrightarrow> lookup d' path = Some (File c)))"
    proof (cases "map_of dst name")
      case None
      then show ?thesis using 4(2) [OF None] ds' by (simp add: ds0_def)
    next
      case (Some t)
      then obtain ds where t: "t = Dir ds" using nofile by (cases t) auto
      show ?thesis using 4(4) [OF Some t] ds' Some t by (simp add: ds0_def)
    qed
    have "collision_free ps ?d1" using clps collision_free_update [OF fresh] by simp
    with Q obtain d' where
      d': "merge_loop ps ?d1 = ([], d', None)"
      and ih: "\<forall>path c. lookup ps path = Some (File c) \<longrightarrow> lookup d' path = Some (File c)"
      by blast
    have keep: "lookup d' path = Some (File c)" if "lookup ?d1 path = Some (File c)" for path c
      using merge_keeps_destination_files(2) [of ?d1 ps] that d' by simp
    have "lookup d' path = Some (File c)"
      if l: "lookup ((name, Dir cs) # ps) path = Some (File c)" for path c
    proof -
      obtain n rest where p: "path = n # rest" using l by (cases path) auto
      show ?thesis
      proof (cases "n = name")
        case True
        then obtain m r where rest: "rest = m # r" and "lookup cs (m # r) = Some (File c)"
          using l p by (cases rest) auto
        then have "lookup ds' (m # r) = Some (File c)" using ihc by simp
        then have "lookup ?d1 path = Some (File c)"
          using p True rest by (simp add: update_conv')
        then show ?thesis by (rule keep)
      next
        case False
        then show ?thesis using l p ih by (simp add: lookup_Cons_other)
      qed
    qed
    then show "\<exists>d'. merge_loop ((name, Dir cs) # ps) dst = ([], d', None) \<and>
        (\<forall>path c. lookup ((name, Dir cs) # ps) path = Some (File c) \<longrightarrow>
           lookup d' path = Some (File c))"
      using step d' by auto
  qed
qed

theorem rename_folder_merges_without_collision:
  assumes "collision_free src d"
  shows "\<exists>d'. rename_folder src (Some d) = Done d' \<and>
      (\<forall>path c. lookup src path = Some (File c) \<longrightarrow> lookup d' path = Some (File c)) \<and>
      (\<forall>path c. lookup d path = Some (File c) \<longrightarrow> lookup d' path = Some (File c))"
proof -
  from merge_without_collision(1) [of src d] assms obtain d' where
    d': "rename_merge src d = Done d'"
    and a: "\<forall>path c. lookup src path = Some (File c) \<longrightarrow> lookup d' path = Some (File c)"
    by blast
  have "\<forall>path c. lookup d path = Some (File c) \<longrightarrow> lookup d' path = Some (File c)"
    using merge_keeps_destination_files(1) [of d src] d' by simp
  then show ?thesis using d' a by (simp add: rename_folder_def)
qed

text \<open>
  An instance: a sub-directory merged into an existing one, and a file moved.
\<close>

theorem rename_folder_without_collision:
  "rename_folder
     [(lit ''d'', Dir [(lit ''x.png'', File (lit ''new''))]), (lit ''z.png'', File (lit ''z''))]
     (Some [(lit ''d'', Dir [(lit ''y.png'', File (lit ''old''))])]) =
     Done [(lit ''d'', Dir [(lit ''y.png'', File (lit ''old'')), (lit ''x.png'', File (lit ''new''))]),
           (lit ''z.png'', File (lit ''z''))]"
  by (simp add: rename_folder_def)

end
